theory Spec2Isabelle
  imports Complex_Main
begin

section \<open>Half-edge topology queries over a triangle mesh\<close>

text \<open>
  A shallow embedding of \<^verbatim>\<open>createHalfEdgeTopology\<close>. The closure returned by that
  function captures four variables (\<^verbatim>\<open>geometry\<close>, \<^verbatim>\<open>vertices\<close>, \<^verbatim>\<open>indices\<close>,
  \<^verbatim>\<open>halfEdgeMap\<close>); they are the fields of the state record below, and every query takes
  that record as its first argument.
\<close>

subsection \<open>JavaScript values and array reads\<close>

text \<open>
  Index arguments are non-negative integers. The source computes \<^verbatim>\<open>faceIndex * 3 + 2\<close>
  and \<^verbatim>\<open>edgeIndex + 1\<close> in double precision, which is exact below \<open>2^53\<close>; the model
  computes with natural numbers and agrees with the source on that range, which contains
  every index of a buffer. Reading an array beyond its length gives \<^verbatim>\<open>undefined\<close> in
  JavaScript, so the value read from a face is a number or \<^verbatim>\<open>undefined\<close>.
\<close>

datatype jsval = Num nat | Undefined

text \<open>\<^verbatim>\<open>indices[i]\<close> on the \<^verbatim>\<open>Uint32Array\<close>.\<close>

definition typed_get :: "nat list \<Rightarrow> nat \<Rightarrow> jsval" where
  "typed_get xs i = (if i < length xs then Num (xs ! i) else Undefined)"

text \<open>\<^verbatim>\<open>faceVertices[i]\<close> on a plain array.\<close>

definition array_get :: "jsval list \<Rightarrow> nat \<Rightarrow> jsval" where
  "array_get xs i = (if i < length xs then xs ! i else Undefined)"

text \<open>\<^verbatim>\<open>Array.prototype.includes\<close> and \<^verbatim>\<open>Array.prototype.indexOf\<close> (\<open>-1\<close> when absent).\<close>

definition array_includes :: "'a list \<Rightarrow> 'a \<Rightarrow> bool" where
  "array_includes xs x = (x \<in> set xs)"

fun indexOf :: "'a list \<Rightarrow> 'a \<Rightarrow> int" where
  "indexOf [] x = - 1"
| "indexOf (y # ys) x =
     (if y = x then 0 else (let r = indexOf ys x in if r = - 1 then - 1 else r + 1))"

text \<open>\<^verbatim>\<open>Set.prototype.add\<close> on a set that is later read in insertion order.\<close>

definition set_add :: "'a list \<Rightarrow> 'a \<Rightarrow> 'a list" where
  "set_add xs x = (if x \<in> set xs then xs else xs @ [x])"

text \<open>
  The values taken by \<open>i\<close> in \<^verbatim>\<open>for (let i = 0; i < q; i++)\<close>, where the bound \<open>q\<close> is
  a quotient of two lengths and need not be an integer.
\<close>

definition loop_range :: "rat \<Rightarrow> nat list" where
  "loop_range q = [0..<nat \<lceil>q\<rceil>]"

subsection \<open>The mesh and the captured state\<close>

text \<open>
  Of the position array only the length is read. The index array is absent
  (\<^verbatim>\<open>geometry.index\<close> is null) for a non-indexed mesh.
\<close>

record geometry =
  position :: "rat list"
  index :: "nat list option"

type_synonym EdgeDescriptor = "nat \<times> nat"

subsection \<open>The adjacency table\<close>

text \<open>
  Modelled from the spec: the class \<^verbatim>\<open>HalfEdgeMap\<close> is imported from the package
  \<^verbatim>\<open>three-bvh-csg\<close> and its code is not part of the sources. The table maps a half-edge
  descriptor to its sibling descriptor or to none.
\<close>

record HalfEdgeMap =
  data :: "EdgeDescriptor \<Rightarrow> EdgeDescriptor option"

text \<open>
  Modelled from the spec: the number of faces of the snapshot, whose index sequence has
  length 3 times the face count and whose position sequence has length 3 times the vertex
  count.
\<close>

definition triCount :: "geometry \<Rightarrow> nat" where
  "triCount g = (case index g of None \<Rightarrow> length (position g) div 9
                 | Some ix \<Rightarrow> length ix div 3)"

text \<open>
  Modelled from the spec: the vertex index at position \<open>k\<close> of face \<open>f\<close> of the snapshot;
  faces are implicitly \<open>[3i, 3i+1, 3i+2]\<close> when the indices are absent.
\<close>

definition snapshotVertex :: "geometry \<Rightarrow> nat \<Rightarrow> nat \<Rightarrow> nat" where
  "snapshotVertex g f k = (case index g of None \<Rightarrow> 3 * f + k | Some ix \<Rightarrow> ix ! (3 * f + k))"

text \<open>
  Modelled from the spec: the edge in slot \<open>e\<close> lies between the face's vertex at position
  \<open>e\<close> and the vertex at position \<open>(e+1) mod 3\<close>, and edges are matched by their unordered
  vertex-index pair.
\<close>

definition edgeKey :: "geometry \<Rightarrow> EdgeDescriptor \<Rightarrow> nat \<times> nat" where
  "edgeKey g d = (let a = snapshotVertex g (fst d) (snd d);
                      b = snapshotVertex g (fst d) ((snd d + 1) mod 3)
                  in (min a b, max a b))"

text \<open>Modelled from the spec: all half-edge descriptors, in discovery order.\<close>

definition descriptors :: "geometry \<Rightarrow> EdgeDescriptor list" where
  "descriptors g = concat (map (\<lambda>f. [(f, 0), (f, 1), (f, 2)]) [0..<triCount g])"

text \<open>Modelled from the spec: the descriptors grouped under the key of \<open>d\<close>.\<close>

definition edgeGroup :: "geometry \<Rightarrow> EdgeDescriptor \<Rightarrow> EdgeDescriptor list" where
  "edgeGroup g d = filter (\<lambda>d'. edgeKey g d' = edgeKey g d) (descriptors g)"

text \<open>
  Modelled from the spec: the discovery position of a descriptor within its group, as the
  position of the first occurrence of an element in a list.
\<close>

fun position_in :: "'a list \<Rightarrow> 'a \<Rightarrow> nat" where
  "position_in [] x = 0"
| "position_in (y # ys) x = (if y = x then 0 else Suc (position_in ys x))"

text \<open>
  Modelled from the spec: the descriptors of one key are paired consecutively in discovery
  order (first with second, third with fourth, and so on); a descriptor left over, and so
  the only descriptor of a key, is a boundary edge. A descriptor that is not in the mesh
  has no sibling.
\<close>

definition sibling :: "geometry \<Rightarrow> EdgeDescriptor \<Rightarrow> EdgeDescriptor option" where
  "sibling g d =
     (if d \<in> set (descriptors g) then
        (let grp = edgeGroup g d; i = position_in grp d in
         if even i then (if Suc i < length grp then Some (grp ! Suc i) else None)
         else Some (grp ! (i - 1)))
      else None)"

text \<open>Modelled from the spec: \<^verbatim>\<open>halfEdgeMap.updateFrom(geometry)\<close> rebuilds the whole table.\<close>

definition updateFrom :: "geometry \<Rightarrow> HalfEdgeMap" where
  "updateFrom g = \<lparr> data = sibling g \<rparr>"

text \<open>
  Modelled from the spec: the face component of the sibling descriptor; \<open>-1\<close> is the
  sentinel for ``no sibling''.
\<close>

definition getSiblingTriangleIndex :: "HalfEdgeMap \<Rightarrow> nat \<Rightarrow> nat \<Rightarrow> int" where
  "getSiblingTriangleIndex hm triIndex edgeIndex =
     (case data hm (triIndex, edgeIndex) of None \<Rightarrow> - 1 | Some d \<Rightarrow> int (fst d))"

text \<open>
  Modelled from the spec: the edge-slot component of the sibling descriptor, or the
  sentinel \<open>-1\<close>.
\<close>

definition getSiblingEdgeIndex :: "HalfEdgeMap \<Rightarrow> nat \<Rightarrow> nat \<Rightarrow> int" where
  "getSiblingEdgeIndex hm triIndex edgeIndex =
     (case data hm (triIndex, edgeIndex) of None \<Rightarrow> - 1 | Some d \<Rightarrow> int (snd d))"

subsection \<open>Construction and update\<close>

record HalfEdgeTopology =
  geometry :: geometry
  vertices :: "rat list"
  indices :: "nat list option"
  halfEdgeMap :: HalfEdgeMap

definition createHalfEdgeTopology :: "geometry \<Rightarrow> HalfEdgeTopology" where
  "createHalfEdgeTopology g =
     \<lparr> geometry = g, vertices = position g, indices = index g, halfEdgeMap = updateFrom g \<rparr>"

definition update :: "HalfEdgeTopology \<Rightarrow> HalfEdgeTopology" where
  "update t = t \<lparr> vertices := position (geometry t), indices := index (geometry t),
                  halfEdgeMap := updateFrom (geometry t) \<rparr>"

subsection \<open>Basic utility methods\<close>

definition getVertexCount :: "HalfEdgeTopology \<Rightarrow> rat" where
  "getVertexCount t = of_nat (length (vertices t)) / 3"

definition getFaceCount :: "HalfEdgeTopology \<Rightarrow> rat" where
  "getFaceCount t = (case indices t of Some ix \<Rightarrow> of_nat (length ix) / 3
                     | None \<Rightarrow> of_nat (length (vertices t)) / 9)"

definition getGeometry :: "HalfEdgeTopology \<Rightarrow> geometry" where
  "getGeometry t = geometry t"

subsection \<open>Face queries\<close>

definition getFaceVertices :: "HalfEdgeTopology \<Rightarrow> nat \<Rightarrow> jsval list" where
  "getFaceVertices t faceIndex =
     (case indices t of
        None \<Rightarrow> [Num (faceIndex * 3), Num (faceIndex * 3 + 1), Num (faceIndex * 3 + 2)]
      | Some ix \<Rightarrow> [typed_get ix (faceIndex * 3), typed_get ix (faceIndex * 3 + 1),
                    typed_get ix (faceIndex * 3 + 2)])"

definition getFaceNeighbors :: "HalfEdgeTopology \<Rightarrow> nat \<Rightarrow> int list" where
  "getFaceNeighbors t faceIndex =
     filter (\<lambda>siblingFace. siblingFace \<noteq> - 1)
       (map (getSiblingTriangleIndex (halfEdgeMap t) faceIndex) [0, 1, 2])"

definition getFaceEdges :: "HalfEdgeTopology \<Rightarrow> nat \<Rightarrow> EdgeDescriptor list" where
  "getFaceEdges t faceIndex = [(faceIndex, 0), (faceIndex, 1), (faceIndex, 2)]"

definition isFaceOnBoundary :: "HalfEdgeTopology \<Rightarrow> nat \<Rightarrow> bool" where
  "isFaceOnBoundary t faceIndex =
     (\<exists>edgeIndex \<in> set [0, 1, 2].
        getSiblingTriangleIndex (halfEdgeMap t) faceIndex edgeIndex = - 1)"

definition walkAroundFace :: "HalfEdgeTopology \<Rightarrow> nat \<Rightarrow> int option list" where
  "walkAroundFace t faceIndex =
     map (\<lambda>edgeIndex.
            (let neighbor = getSiblingTriangleIndex (halfEdgeMap t) faceIndex edgeIndex
             in if neighbor \<noteq> - 1 then Some neighbor else None))
       [0, 1, 2]"

subsection \<open>Edge queries\<close>

definition getEdgeFaces :: "HalfEdgeTopology \<Rightarrow> nat \<Rightarrow> nat \<Rightarrow> int list" where
  "getEdgeFaces t faceIndex edgeIndex =
     (let faces = [int faceIndex];
          siblingFace = getSiblingTriangleIndex (halfEdgeMap t) faceIndex edgeIndex
      in if siblingFace \<noteq> - 1 then faces @ [siblingFace] else faces)"

definition getEdgeVertices :: "HalfEdgeTopology \<Rightarrow> nat \<Rightarrow> nat \<Rightarrow> jsval \<times> jsval" where
  "getEdgeVertices t faceIndex edgeIndex =
     (let faceVertices = getFaceVertices t faceIndex
      in (array_get faceVertices edgeIndex, array_get faceVertices ((edgeIndex + 1) mod 3)))"

definition getOppositeHalfEdge :: "HalfEdgeTopology \<Rightarrow> nat \<Rightarrow> nat \<Rightarrow> (int \<times> int) option" where
  "getOppositeHalfEdge t faceIndex edgeIndex =
     (let siblingFace = getSiblingTriangleIndex (halfEdgeMap t) faceIndex edgeIndex;
          siblingEdge = getSiblingEdgeIndex (halfEdgeMap t) faceIndex edgeIndex
      in if siblingFace \<noteq> - 1 \<and> siblingEdge \<noteq> - 1 then Some (siblingFace, siblingEdge)
         else None)"

definition isEdgeOnBoundary :: "HalfEdgeTopology \<Rightarrow> nat \<Rightarrow> nat \<Rightarrow> bool" where
  "isEdgeOnBoundary t faceIndex edgeIndex =
     (getSiblingTriangleIndex (halfEdgeMap t) faceIndex edgeIndex = - 1)"

subsection \<open>Vertex queries\<close>

definition getVertexIncidentFaces :: "HalfEdgeTopology \<Rightarrow> jsval \<Rightarrow> nat list" where
  "getVertexIncidentFaces t vertexIndex =
     (case indices t of
        None \<Rightarrow> filter (\<lambda>i. array_includes (getFaceVertices t i) vertexIndex)
                  (loop_range (of_nat (length (vertices t)) / 9))
      | Some ix \<Rightarrow> filter (\<lambda>i. array_includes (getFaceVertices t i) vertexIndex)
                    (loop_range (of_nat (length ix) / 3)))"

definition getVertexNeighbors :: "HalfEdgeTopology \<Rightarrow> jsval \<Rightarrow> jsval list" where
  "getVertexNeighbors t vertexIndex =
     foldl (\<lambda>neighbors faceIndex.
              (let faceVertices = getFaceVertices t faceIndex;
                   vertexPos = indexOf faceVertices vertexIndex
               in if vertexPos \<noteq> - 1
                  then foldl (\<lambda>nbs i. if int i \<noteq> vertexPos
                                       then set_add nbs (array_get faceVertices i) else nbs)
                         neighbors [0, 1, 2]
                  else neighbors))
       [] (getVertexIncidentFaces t vertexIndex)"

definition getVertexIncidentEdges :: "HalfEdgeTopology \<Rightarrow> jsval \<Rightarrow> (nat \<times> int) list" where
  "getVertexIncidentEdges t vertexIndex =
     foldl (\<lambda>edges faceIndex.
              (let faceVertices = getFaceVertices t faceIndex;
                   vertexPos = indexOf faceVertices vertexIndex
               in if vertexPos \<noteq> - 1
                  then edges @ [(faceIndex, vertexPos), (faceIndex, (vertexPos + 2) mod 3)]
                  else edges))
       [] (getVertexIncidentFaces t vertexIndex)"

definition getVertexValence :: "HalfEdgeTopology \<Rightarrow> jsval \<Rightarrow> nat" where
  "getVertexValence t vertexIndex = length (getVertexNeighbors t vertexIndex)"

subsection \<open>Traversal: the walk around a vertex\<close>

text \<open>
  The \<^verbatim>\<open>while\<close> loop of \<^verbatim>\<open>walkAroundVertex\<close>, with its three local variables as
  arguments. \<^verbatim>\<open>nextFace\<close> is assigned to \<^verbatim>\<open>currentFace\<close> only after it was found in
  \<^verbatim>\<open>incidentFaces\<close>, whose elements are loop indices.
\<close>

function walk_loop ::
  "HalfEdgeTopology \<Rightarrow> jsval \<Rightarrow> nat list \<Rightarrow> nat set \<Rightarrow> nat list \<Rightarrow> nat \<Rightarrow> nat list" where
  "walk_loop t vertexIndex incidentFaces visited orderedFaces currentFace =
     (if currentFace \<in> visited then orderedFaces
      else
        (let visited' = insert currentFace visited;
             orderedFaces' = orderedFaces @ [currentFace];
             faceVertices = getFaceVertices t currentFace;
             vertexPos = indexOf faceVertices vertexIndex
         in if vertexPos \<noteq> - 1 then
              (let nextEdge = nat ((vertexPos + 2) mod 3);
                   nextFace = getSiblingTriangleIndex (halfEdgeMap t) currentFace nextEdge
               in if nextFace \<noteq> - 1 \<and> array_includes (map int incidentFaces) nextFace
                     \<and> nextFace \<notin> int ` visited'
                  then walk_loop t vertexIndex incidentFaces visited' orderedFaces' (nat nextFace)
                  else orderedFaces')
            else orderedFaces'))"
  by pat_completeness auto
termination
proof (relation "measure (\<lambda>(t, v, fs, visited, ord, cur). card (set fs - visited - {cur}))")
  show "wf (measure (\<lambda>(t, v, fs, visited, ord, cur). card (set fs - visited - {cur})))"
    by simp
next
  fix t :: HalfEdgeTopology and vertexIndex :: jsval and incidentFaces and visited :: "nat set"
    and orderedFaces :: "nat list" and currentFace :: nat
    and visited' orderedFaces' faceVertices vertexPos nextEdge nextFace
  assume a: "currentFace \<notin> visited" "visited' = insert currentFace visited"
    "nextFace \<noteq> - 1 \<and> array_includes (map int incidentFaces) nextFace \<and> nextFace \<notin> int ` visited'"
  from a have m: "nat nextFace \<in> set incidentFaces - visited - {currentFace}"
    by (auto simp: array_includes_def)
  have "set incidentFaces - visited' - {nat nextFace}
        \<subset> set incidentFaces - visited - {currentFace}"
    using m a(2) by auto
  then have "card (set incidentFaces - visited' - {nat nextFace})
        < card (set incidentFaces - visited - {currentFace})"
    by (intro psubset_card_mono) auto
  then show "((t, vertexIndex, incidentFaces, visited', orderedFaces', nat nextFace),
         (t, vertexIndex, incidentFaces, visited, orderedFaces, currentFace))
        \<in> measure (\<lambda>(t, v, fs, visited, ord, cur). card (set fs - visited - {cur}))"
    by simp
qed

declare walk_loop.simps [simp del]

definition walkAroundVertex :: "HalfEdgeTopology \<Rightarrow> jsval \<Rightarrow> nat option \<Rightarrow> nat list" where
  "walkAroundVertex t vertexIndex startFaceIndex =
     (let incidentFaces = getVertexIncidentFaces t vertexIndex
      in if length incidentFaces = 0 then []
         else (let startFace = (case startFaceIndex of Some s \<Rightarrow> s | None \<Rightarrow> incidentFaces ! 0)
               in walk_loop t vertexIndex incidentFaces {} [] startFace))"

subsection \<open>Traversal: the shortest path\<close>

text \<open>The loop indices of the face loop in \<^verbatim>\<open>getVertexIncidentFaces\<close>.\<close>

definition faceLoop :: "HalfEdgeTopology \<Rightarrow> nat list" where
  "faceLoop t = (case indices t of None \<Rightarrow> loop_range (of_nat (length (vertices t)) / 9)
                 | Some ix \<Rightarrow> loop_range (of_nat (length ix) / 3))"

text \<open>Every value that occurs in a face that loop reads.\<close>

definition meshVertices :: "HalfEdgeTopology \<Rightarrow> jsval set" where
  "meshVertices t = (\<Union>f \<in> set (faceLoop t). set (getFaceVertices t f))"

text \<open>
  The \<^verbatim>\<open>while (queue.length > 0)\<close> loop of \<^verbatim>\<open>findShortestPath\<close>: the head of the
  queue is shifted off, skipped when already visited, and otherwise marked visited and
  expanded.
\<close>

function bfs_loop ::
  "HalfEdgeTopology \<Rightarrow> jsval \<Rightarrow> jsval set \<Rightarrow> (jsval \<times> jsval list) list \<Rightarrow> jsval list option" where
  "bfs_loop t endVertex visited [] = None"
| "bfs_loop t endVertex visited ((vertex, path) # queue) =
     (if vertex \<in> visited then bfs_loop t endVertex visited queue
      else
        (let visited' = insert vertex visited
         in if vertex = endVertex then Some path
            else bfs_loop t endVertex visited'
                   (queue @ map (\<lambda>neighbor. (neighbor, path @ [neighbor]))
                              (filter (\<lambda>neighbor. neighbor \<notin> visited')
                                 (getVertexNeighbors t vertex)))))"
  by pat_completeness auto
termination
proof (relation "measures [\<lambda>(t, e, visited, queue). card (meshVertices t - visited),
                           \<lambda>(t, e, visited, queue). length queue]")
  show "wf (measures [\<lambda>(t, e, visited, queue). card (meshVertices t - visited),
                      \<lambda>(t, e, visited, queue). length queue])"
    by simp
next
  fix t :: HalfEdgeTopology and endVertex :: jsval and visited :: "jsval set"
    and vertex :: jsval and path :: "jsval list" and queue :: "(jsval \<times> jsval list) list"
  assume "vertex \<in> visited"
  then show "((t, endVertex, visited, queue), (t, endVertex, visited, (vertex, path) # queue))
        \<in> measures [\<lambda>(t, e, visited, queue). card (meshVertices t - visited),
                     \<lambda>(t, e, visited, queue). length queue]"
    by simp
next
  fix t :: HalfEdgeTopology and endVertex :: jsval and visited :: "jsval set"
    and vertex :: jsval and path :: "jsval list" and queue :: "(jsval \<times> jsval list) list"
    and visited' :: "jsval set"
  assume a: "vertex \<notin> visited" "visited' = insert vertex visited"
  let ?q = "queue @ map (\<lambda>neighbor. (neighbor, path @ [neighbor]))
                      (filter (\<lambda>neighbor. neighbor \<notin> visited') (getVertexNeighbors t vertex))"
  show "((t, endVertex, visited', ?q), (t, endVertex, visited, (vertex, path) # queue))
        \<in> measures [\<lambda>(t, e, visited, queue). card (meshVertices t - visited),
                     \<lambda>(t, e, visited, queue). length queue]"
  proof (cases "vertex \<in> meshVertices t")
    case True
    then have "meshVertices t - visited' \<subset> meshVertices t - visited"
      using a by auto
    then have "card (meshVertices t - visited') < card (meshVertices t - visited)"
      by (intro psubset_card_mono) (auto simp: meshVertices_def)
    then show ?thesis by simp
  next
    case False
    then have "meshVertices t - visited' = meshVertices t - visited"
      using a by auto
    moreover have "getVertexIncidentFaces t vertex = []"
      using False
      by (auto simp: getVertexIncidentFaces_def meshVertices_def faceLoop_def array_includes_def
          filter_empty_conv split: option.splits)
    then have "?q = queue"
      by (simp add: getVertexNeighbors_def)
    ultimately show ?thesis by simp
  qed
qed

declare bfs_loop.simps [simp del]

definition findShortestPath :: "HalfEdgeTopology \<Rightarrow> jsval \<Rightarrow> jsval \<Rightarrow> jsval list option" where
  "findShortestPath t startVertex endVertex =
     (if startVertex = endVertex then Some [startVertex]
      else bfs_loop t endVertex {} [(startVertex, [startVertex])])"

subsection \<open>The returned interface\<close>

text \<open>
  The object returned by \<^verbatim>\<open>createHalfEdgeTopology\<close>, restricted to the queries that take a
  face, edge-slot or vertex index. A call either returns an answer or fails with an error.
  No function body has a \<^verbatim>\<open>throw\<close> statement and the array operations used
  (reads, \<^verbatim>\<open>includes\<close>, \<^verbatim>\<open>indexOf\<close>, \<^verbatim>\<open>push\<close>) do not throw. The two lookups of the
  adjacency table belong to the library and are modelled from the spec; what the library
  does for a descriptor outside the mesh is not part of that model, and no property below
  depends on it.
\<close>

datatype error = IndexOutOfRange

datatype query =
    GetFaceVertices nat
  | GetFaceNeighbors nat
  | GetFaceEdges nat
  | IsFaceOnBoundary nat
  | WalkAroundFace nat
  | GetEdgeFaces nat nat
  | GetEdgeVertices nat nat
  | GetOppositeHalfEdge nat nat
  | IsEdgeOnBoundary nat nat
  | GetVertexIncidentFaces jsval
  | GetVertexNeighbors jsval
  | GetVertexIncidentEdges jsval
  | GetVertexValence jsval

datatype answer =
    VertexTriple "jsval list"
  | FaceList "int list"
  | EdgeList "EdgeDescriptor list"
  | Flag bool
  | OptionalFaces "int option list"
  | VertexPair "jsval \<times> jsval"
  | OptionalEdge "(int \<times> int) option"
  | FaceIndices "nat list"
  | VertexList "jsval list"
  | IncidentEdges "(nat \<times> int) list"
  | Count nat

fun call :: "HalfEdgeTopology \<Rightarrow> query \<Rightarrow> error + answer" where
  "call t (GetFaceVertices f) = Inr (VertexTriple (getFaceVertices t f))"
| "call t (GetFaceNeighbors f) = Inr (FaceList (getFaceNeighbors t f))"
| "call t (GetFaceEdges f) = Inr (EdgeList (getFaceEdges t f))"
| "call t (IsFaceOnBoundary f) = Inr (Flag (isFaceOnBoundary t f))"
| "call t (WalkAroundFace f) = Inr (OptionalFaces (walkAroundFace t f))"
| "call t (GetEdgeFaces f e) = Inr (FaceList (getEdgeFaces t f e))"
| "call t (GetEdgeVertices f e) = Inr (VertexPair (getEdgeVertices t f e))"
| "call t (GetOppositeHalfEdge f e) = Inr (OptionalEdge (getOppositeHalfEdge t f e))"
| "call t (IsEdgeOnBoundary f e) = Inr (Flag (isEdgeOnBoundary t f e))"
| "call t (GetVertexIncidentFaces v) = Inr (FaceIndices (getVertexIncidentFaces t v))"
| "call t (GetVertexNeighbors v) = Inr (VertexList (getVertexNeighbors t v))"
| "call t (GetVertexIncidentEdges v) = Inr (IncidentEdges (getVertexIncidentEdges t v))"
| "call t (GetVertexValence v) = Inr (Count (getVertexValence t v))"

text \<open>
  A query is out of range when its face index is not below the face count, its edge slot
  is not 0, 1 or 2, or its vertex index is not below the vertex count.
\<close>

definition faceOutOfRange :: "HalfEdgeTopology \<Rightarrow> nat \<Rightarrow> bool" where
  "faceOutOfRange t f = (getFaceCount t \<le> of_nat f)"

definition vertexOutOfRange :: "HalfEdgeTopology \<Rightarrow> jsval \<Rightarrow> bool" where
  "vertexOutOfRange t v = (case v of Num n \<Rightarrow> getVertexCount t \<le> of_nat n | Undefined \<Rightarrow> False)"

fun outOfRange :: "HalfEdgeTopology \<Rightarrow> query \<Rightarrow> bool" where
  "outOfRange t (GetFaceVertices f) = faceOutOfRange t f"
| "outOfRange t (GetFaceNeighbors f) = faceOutOfRange t f"
| "outOfRange t (GetFaceEdges f) = faceOutOfRange t f"
| "outOfRange t (IsFaceOnBoundary f) = faceOutOfRange t f"
| "outOfRange t (WalkAroundFace f) = faceOutOfRange t f"
| "outOfRange t (GetEdgeFaces f e) = (faceOutOfRange t f \<or> 3 \<le> e)"
| "outOfRange t (GetEdgeVertices f e) = (faceOutOfRange t f \<or> 3 \<le> e)"
| "outOfRange t (GetOppositeHalfEdge f e) = (faceOutOfRange t f \<or> 3 \<le> e)"
| "outOfRange t (IsEdgeOnBoundary f e) = (faceOutOfRange t f \<or> 3 \<le> e)"
| "outOfRange t (GetVertexIncidentFaces v) = vertexOutOfRange t v"
| "outOfRange t (GetVertexNeighbors v) = vertexOutOfRange t v"
| "outOfRange t (GetVertexIncidentEdges v) = vertexOutOfRange t v"
| "outOfRange t (GetVertexValence v) = vertexOutOfRange t v"

subsection \<open>The walk around a vertex, as a property of its result\<close>

text \<open>
  The next face around \<open>v\<close> from face \<open>f\<close>: the sibling face across the edge slot
  \<open>(vertexPosition + 2) mod 3\<close>, where \<open>vertexPosition\<close> is the position of \<open>v\<close> in the
  vertex triple of \<open>f\<close>. It is none (\<open>-1\<close>) when that edge has no sibling, and also when
  \<open>v\<close> has no position in \<open>f\<close>, since then there is no such edge slot.
\<close>

definition nextFaceAround :: "HalfEdgeTopology \<Rightarrow> jsval \<Rightarrow> nat \<Rightarrow> int" where
  "nextFaceAround t v f =
     (let vertexPos = indexOf (getFaceVertices t f) v
      in if vertexPos \<noteq> - 1
         then getSiblingTriangleIndex (halfEdgeMap t) f (nat ((vertexPos + 2) mod 3))
         else - 1)"

text \<open>
  The three stop conditions: the next face is a boundary (none), is not incident to the
  vertex, or was already visited.
\<close>

definition stopsAt :: "HalfEdgeTopology \<Rightarrow> jsval \<Rightarrow> nat set \<Rightarrow> nat \<Rightarrow> bool" where
  "stopsAt t v visited f =
     (let n = nextFaceAround t v f
      in n = - 1 \<or> n \<notin> int ` set (getVertexIncidentFaces t v) \<or> n \<in> int ` visited)"

text \<open>
  A list of faces is a walk around \<open>v\<close>, given the faces visited before it: every face is
  new; a face that is followed by another contains \<open>v\<close>, meets none of the stop conditions
  and is followed by its next face; the last face meets a stop condition.
\<close>

fun walk_chain :: "HalfEdgeTopology \<Rightarrow> jsval \<Rightarrow> nat set \<Rightarrow> nat list \<Rightarrow> bool" where
  "walk_chain t v vis [] = True"
| "walk_chain t v vis [f] = (f \<notin> vis \<and> stopsAt t v (insert f vis) f)"
| "walk_chain t v vis (f # f' # fs) =
     (f \<notin> vis \<and> v \<in> set (getFaceVertices t f) \<and> int f' = nextFaceAround t v f
      \<and> \<not> stopsAt t v (insert f vis) f \<and> walk_chain t v (insert f vis) (f' # fs))"

subsection \<open>Paths in the vertex-adjacency graph\<close>

text \<open>
  A vertex list whose consecutive entries are adjacent: each entry is among the
  \<^verbatim>\<open>getVertexNeighbors\<close> of the entry before it.
\<close>

fun adjacent_steps :: "HalfEdgeTopology \<Rightarrow> jsval list \<Rightarrow> bool" where
  "adjacent_steps t [] = True"
| "adjacent_steps t [v] = True"
| "adjacent_steps t (u # w # vs) =
     (w \<in> set (getVertexNeighbors t u) \<and> adjacent_steps t (w # vs))"

text \<open>A path from \<open>a\<close> to \<open>b\<close>: non-empty, starting at \<open>a\<close>, ending at \<open>b\<close>, with adjacent steps.\<close>

definition isPath :: "HalfEdgeTopology \<Rightarrow> jsval \<Rightarrow> jsval \<Rightarrow> jsval list \<Rightarrow> bool" where
  "isPath t a b p = (p \<noteq> [] \<and> hd p = a \<and> last p = b \<and> adjacent_steps t p)"

text \<open>
  The invariant of the search loop for start \<open>s\<close> and target \<open>e\<close>: every queue entry
  carries a path from \<open>s\<close> to its vertex; the path lengths in the queue are ascending and
  differ by at most one; every neighbour of a visited vertex \<open>u\<close> is visited or queued
  with a path at most one longer than any path to \<open>u\<close>; the target is not visited; the
  start is visited or queued.
\<close>

definition bfs_inv ::
  "HalfEdgeTopology \<Rightarrow> jsval \<Rightarrow> jsval \<Rightarrow> jsval set \<Rightarrow> (jsval \<times> jsval list) list \<Rightarrow> bool" where
  "bfs_inv t s e visited queue =
     ((\<forall>x \<in> set queue. isPath t s (fst x) (snd x))
      \<and> sorted (map (\<lambda>x. length (snd x)) queue)
      \<and> (\<forall>x \<in> set queue. \<forall>y \<in> set queue. length (snd y) \<le> length (snd x) + 1)
      \<and> (\<forall>u \<in> visited. \<forall>y \<in> set (getVertexNeighbors t u).
            y \<in> visited
            \<or> (\<exists>x \<in> set queue. fst x = y
                  \<and> (\<forall>q. isPath t s u q \<longrightarrow> length (snd x) \<le> length q + 1)))
      \<and> e \<notin> visited
      \<and> (s \<in> visited \<or> (s, [s]) \<in> set queue))"

subsection \<open>Example meshes\<close>

text \<open>One triangle without an index buffer.\<close>

definition triangle :: geometry where
  "triangle = \<lparr> position = [0, 0, 0, 1, 0, 0, 0, 1, 0], index = None \<rparr>"

text \<open>Two triangles \<open>(0,1,2)\<close> and \<open>(0,2,3)\<close> that share the edge between 0 and 2.\<close>

definition quad :: geometry where
  "quad = \<lparr> position = [0, 0, 0, 1, 0, 0, 1, 1, 0, 0, 1, 0], index = Some [0, 1, 2, 0, 2, 3] \<rparr>"

text \<open>
  Two triangles \<open>(0,1,2)\<close> and \<open>(3,0,2)\<close>: the shared edge between 0 and 2 is slot 2 of
  face 0 and slot 1 of face 1, and vertex 1 lies in face 0 only.
\<close>

definition flap :: geometry where
  "flap = \<lparr> position = [0, 0, 0, 1, 0, 0, 1, 1, 0, 0, 1, 0], index = Some [0, 1, 2, 3, 0, 2] \<rparr>"

text \<open>Two triangles without an index buffer; they share no vertex.\<close>

definition islands :: geometry where
  "islands = \<lparr> position = [0, 0, 0, 1, 0, 0, 0, 1, 0, 5, 0, 0, 6, 0, 0, 5, 1, 0], index = None \<rparr>"

section \<open>Properties\<close>

subsection \<open>Incident faces and the vertices of the mesh\<close>

lemma getVertexIncidentFaces_eq:
  "getVertexIncidentFaces t v = filter (\<lambda>i. v \<in> set (getFaceVertices t i)) (faceLoop t)"
  by (simp add: getVertexIncidentFaces_def faceLoop_def array_includes_def split: option.splits)

lemma finite_meshVertices: "finite (meshVertices t)"
  by (simp add: meshVertices_def)

lemma incident_empty: "v \<notin> meshVertices t \<Longrightarrow> getVertexIncidentFaces t v = []"
  by (auto simp: getVertexIncidentFaces_eq meshVertices_def filter_empty_conv)

lemma neighbors_empty: "v \<notin> meshVertices t \<Longrightarrow> getVertexNeighbors t v = []"
  by (simp add: getVertexNeighbors_def incident_empty)

subsection \<open>Edge vertices\<close>

text \<open>
  C6. For an edge slot \<open>e\<close> in \<open>{0,1,2}\<close>, \<^verbatim>\<open>getEdgeVertices(f, e)\<close> is the pair of the
  entries \<open>e\<close> and \<open>(e+1) mod 3\<close> of \<^verbatim>\<open>getFaceVertices(f)\<close>, and \<^verbatim>\<open>getFaceVertices(f)\<close> is
  \<open>(indices[3f], indices[3f+1], indices[3f+2])\<close> when the index buffer is present and
  \<open>(3f, 3f+1, 3f+2)\<close> when it is absent. For a face below the face count of an index buffer
  whose length is a multiple of 3 the three reads are inside the buffer.
\<close>

theorem getEdgeVertices_spec:
  assumes "e < 3"
  shows "getEdgeVertices t f e = (getFaceVertices t f ! e, getFaceVertices t f ! ((e + 1) mod 3))
    \<and> (indices t = None \<longrightarrow>
          getFaceVertices t f = [Num (3 * f), Num (3 * f + 1), Num (3 * f + 2)])
    \<and> (\<forall>ix. indices t = Some ix \<longrightarrow>
          getFaceVertices t f
            = [typed_get ix (3 * f), typed_get ix (3 * f + 1), typed_get ix (3 * f + 2)]
          \<and> (of_nat f < getFaceCount t \<and> 3 dvd length ix \<longrightarrow>
               getFaceVertices t f
                 = [Num (ix ! (3 * f)), Num (ix ! (3 * f + 1)), Num (ix ! (3 * f + 2))]))"
proof -
  have len: "length (getFaceVertices t f) = 3"
    by (simp add: getFaceVertices_def split: option.splits)
  have "(e + 1) mod 3 < 3" by simp
  with assms len have pair:
    "getEdgeVertices t f e = (getFaceVertices t f ! e, getFaceVertices t f ! ((e + 1) mod 3))"
    by (simp add: getEdgeVertices_def array_get_def Let_def)
  have none: "indices t = None \<longrightarrow>
      getFaceVertices t f = [Num (3 * f), Num (3 * f + 1), Num (3 * f + 2)]"
    by (simp add: getFaceVertices_def mult.commute)
  have some: "getFaceVertices t f
      = [typed_get ix (3 * f), typed_get ix (3 * f + 1), typed_get ix (3 * f + 2)]
      \<and> (of_nat f < getFaceCount t \<and> 3 dvd length ix \<longrightarrow>
           getFaceVertices t f
             = [Num (ix ! (3 * f)), Num (ix ! (3 * f + 1)), Num (ix ! (3 * f + 2))])"
    if ix: "indices t = Some ix" for ix
  proof (intro conjI impI)
    show reads: "getFaceVertices t f
        = [typed_get ix (3 * f), typed_get ix (3 * f + 1), typed_get ix (3 * f + 2)]"
      using ix by (simp add: getFaceVertices_def mult.commute)
    assume v: "of_nat f < getFaceCount t \<and> 3 dvd length ix"
    then obtain k where k: "length ix = 3 * k" by auto
    from v ix have "(of_nat f :: rat) < of_nat (length ix) / 3"
      by (simp add: getFaceCount_def)
    with k have "f < k" by simp
    then have "3 * f + 2 < length ix" using k by simp
    then show "getFaceVertices t f
        = [Num (ix ! (3 * f)), Num (ix ! (3 * f + 1)), Num (ix ! (3 * f + 2))]"
      by (simp add: reads typed_get_def)
  qed
  from pair none some show ?thesis by blast
qed

theorem getEdgeVertices_spec_witness:
  "(2::nat) < 3
   \<and> getEdgeVertices (createHalfEdgeTopology quad) 1 2 = (Num 3, Num 0)
   \<and> getFaceVertices (createHalfEdgeTopology quad) 1 = [Num 0, Num 2, Num 3]"
proof -
  have h: "(2::nat) < 3" by simp
  have ix: "indices (createHalfEdgeTopology quad) = Some [0, 1, 2, 0, 2, 3]"
    by (simp add: createHalfEdgeTopology_def quad_def)
  have fc: "of_nat 1 < getFaceCount (createHalfEdgeTopology quad)"
    by (simp add: getFaceCount_def ix)
  from getEdgeVertices_spec [OF h, of "createHalfEdgeTopology quad" 1] ix fc
  show ?thesis by (simp add: typed_get_def)
qed

subsection \<open>Rebuilding\<close>

lemma update_eq_create: "update t = createHalfEdgeTopology (geometry t)"
  by (simp add: update_def createHalfEdgeTopology_def)

lemma geometry_create: "geometry (createHalfEdgeTopology g) = g"
  by (simp add: createHalfEdgeTopology_def)

text \<open>
  C7. Rebuilding is idempotent: a second \<^verbatim>\<open>update()\<close> on an unchanged geometry leaves the
  captured state as the first one left it, and so does an \<^verbatim>\<open>update()\<close> right after the
  construction; hence every face, edge, vertex and traversal query and both counts return
  what they returned before.
\<close>

theorem update_idempotent:
  "update (update t) = update t
   \<and> update (createHalfEdgeTopology g) = createHalfEdgeTopology g
   \<and> call (update (update t)) q = call (update t) q
   \<and> walkAroundVertex (update (update t)) v s = walkAroundVertex (update t) v s
   \<and> findShortestPath (update (update t)) a b = findShortestPath (update t) a b
   \<and> getVertexCount (update (update t)) = getVertexCount (update t)
   \<and> getFaceCount (update (update t)) = getFaceCount (update t)"
proof -
  have "update (update t) = update t"
    by (simp add: update_eq_create geometry_create)
  moreover have "update (createHalfEdgeTopology g) = createHalfEdgeTopology g"
    by (simp add: update_eq_create geometry_create)
  ultimately show ?thesis by simp
qed

theorem update_idempotent_witness:
  "update (update (createHalfEdgeTopology quad)) = update (createHalfEdgeTopology quad)
   \<and> update (createHalfEdgeTopology quad) = createHalfEdgeTopology quad
   \<and> call (update (update (createHalfEdgeTopology quad))) (GetFaceEdges 0)
       = call (update (createHalfEdgeTopology quad)) (GetFaceEdges 0)"
  using update_idempotent [of "createHalfEdgeTopology quad" quad "GetFaceEdges 0"]
  by simp

subsection \<open>Boundary edges and opposite half-edges\<close>

text \<open>
  C4. \<^verbatim>\<open>isEdgeOnBoundary(f, e)\<close> is true if and only if \<^verbatim>\<open>getOppositeHalfEdge(f, e)\<close> is
  none: the sibling-triangle lookup and the sibling-edge lookup read the same entry of the
  adjacency table, so one is the sentinel exactly when the other is.
\<close>

theorem isEdgeOnBoundary_iff_no_opposite:
  "isEdgeOnBoundary t f e = (getOppositeHalfEdge t f e = None)"
  by (cases "data (halfEdgeMap t) (f, e)")
    (simp_all add: isEdgeOnBoundary_def getOppositeHalfEdge_def Let_def
      getSiblingTriangleIndex_def getSiblingEdgeIndex_def)

theorem isEdgeOnBoundary_iff_no_opposite_witness:
  "isEdgeOnBoundary (createHalfEdgeTopology quad) 0 0
   \<and> getOppositeHalfEdge (createHalfEdgeTopology quad) 0 0 = None
   \<and> \<not> isEdgeOnBoundary (createHalfEdgeTopology quad) 0 2
   \<and> getOppositeHalfEdge (createHalfEdgeTopology quad) 0 2 = Some (1, 0)"
proof -
  have a: "getOppositeHalfEdge (createHalfEdgeTopology quad) 0 0 = None"
    by code_simp
  have b: "getOppositeHalfEdge (createHalfEdgeTopology quad) 0 2 = Some (1, 0)"
    by code_simp
  from a b isEdgeOnBoundary_iff_no_opposite [of "createHalfEdgeTopology quad" 0 0]
    isEdgeOnBoundary_iff_no_opposite [of "createHalfEdgeTopology quad" 0 2]
  show ?thesis by simp
qed

subsection \<open>Symmetry of the sibling pairing\<close>

lemma distinct_descriptors: "distinct (descriptors g)"
  unfolding descriptors_def
  by (rule distinct_concat) (auto simp: distinct_map inj_on_def)

lemma position_in_nth: "distinct xs \<Longrightarrow> i < length xs \<Longrightarrow> position_in xs (xs ! i) = i"
proof (induction xs arbitrary: i)
  case Nil
  then show ?case by simp
next
  case (Cons y ys)
  then show ?case by (cases i) auto
qed

lemma position_in_mem:
  "x \<in> set xs \<Longrightarrow> position_in xs x < length xs \<and> xs ! position_in xs x = x"
  by (induction xs) auto

lemma edgeGroup_same: "d' \<in> set (edgeGroup g d) \<Longrightarrow> edgeGroup g d' = edgeGroup g d"
  by (auto simp: edgeGroup_def)

lemma edgeGroup_self: "d \<in> set (descriptors g) \<Longrightarrow> d \<in> set (edgeGroup g d)"
  by (simp add: edgeGroup_def)

lemma edgeGroup_subset: "d' \<in> set (edgeGroup g d) \<Longrightarrow> d' \<in> set (descriptors g)"
  by (simp add: edgeGroup_def)

lemma distinct_edgeGroup: "distinct (edgeGroup g d)"
  by (simp add: edgeGroup_def distinct_descriptors)

text \<open>
  The pairing inside a group swaps the positions \<open>2k\<close> and \<open>2k+1\<close>, and a descriptor and
  its sibling have the same group, so the sibling of the sibling is the descriptor itself.
\<close>

lemma sibling_symmetric:
  assumes "sibling g d = Some d'"
  shows "sibling g d' = Some d"
proof -
  let ?grp = "edgeGroup g d"
  let ?i = "position_in ?grp d"
  from assms have mem: "d \<in> set (descriptors g)"
    by (auto simp: sibling_def split: if_splits)
  then have pos: "?i < length ?grp" "?grp ! ?i = d"
    using position_in_mem [OF edgeGroup_self] by auto
  show ?thesis
  proof (cases "even ?i")
    case True
    with assms mem have s: "Suc ?i < length ?grp" "d' = ?grp ! Suc ?i"
      by (auto simp: sibling_def Let_def split: if_splits)
    then have in_grp: "d' \<in> set ?grp" by simp
    have p': "position_in ?grp d' = Suc ?i"
      using s position_in_nth [OF distinct_edgeGroup] by simp
    show ?thesis
      using in_grp True pos
      by (simp add: sibling_def edgeGroup_same [OF in_grp] edgeGroup_subset [OF in_grp] p')
  next
    case False
    with assms mem have s: "d' = ?grp ! (?i - 1)"
      by (auto simp: sibling_def Let_def split: if_splits)
    from False have i0: "0 < ?i" by (cases ?i) auto
    with pos have lt: "?i - 1 < length ?grp" by simp
    then have in_grp: "d' \<in> set ?grp" using s by simp
    have p': "position_in ?grp d' = ?i - 1"
      using s lt position_in_nth [OF distinct_edgeGroup] by simp
    have ev: "even (?i - 1)" using False i0 by simp
    show ?thesis
      using in_grp ev pos i0
      by (simp add: sibling_def edgeGroup_same [OF in_grp] edgeGroup_subset [OF in_grp] p')
  qed
qed

text \<open>
  C3. On a freshly built topology, whenever \<^verbatim>\<open>getOppositeHalfEdge(f, e)\<close> is not none,
  its result is a pair of non-negative numbers and \<^verbatim>\<open>getOppositeHalfEdge\<close> applied to that
  pair returns exactly \<open>(f, e)\<close>.
\<close>

theorem oppositeHalfEdge_involution:
  assumes "getOppositeHalfEdge (createHalfEdgeTopology g) f e = Some (f', e')"
  shows "0 \<le> f' \<and> 0 \<le> e'
    \<and> getOppositeHalfEdge (createHalfEdgeTopology g) (nat f') (nat e') = Some (int f, int e)"
proof -
  from assms obtain d' where d': "sibling g (f, e) = Some d'" "f' = int (fst d')" "e' = int (snd d')"
    by (auto simp: getOppositeHalfEdge_def createHalfEdgeTopology_def updateFrom_def Let_def
        getSiblingTriangleIndex_def getSiblingEdgeIndex_def split: option.splits if_splits)
  from sibling_symmetric [OF d'(1)] have "sibling g d' = Some (f, e)" .
  then have "sibling g (nat f', nat e') = Some (f, e)"
    using d' by simp
  then show ?thesis
    using d'
    by (simp add: getOppositeHalfEdge_def createHalfEdgeTopology_def updateFrom_def Let_def
        getSiblingTriangleIndex_def getSiblingEdgeIndex_def)
qed

theorem oppositeHalfEdge_involution_witness:
  "getOppositeHalfEdge (createHalfEdgeTopology quad) 0 2 = Some (1, 0)
   \<and> getOppositeHalfEdge (createHalfEdgeTopology quad) (nat 1) (nat 0) = Some (int 0, int 2)"
proof -
  have h: "getOppositeHalfEdge (createHalfEdgeTopology quad) 0 2 = Some (1, 0)"
    by code_simp
  from oppositeHalfEdge_involution [OF h] h show ?thesis by simp
qed

subsection \<open>Queries with an index out of range\<close>

lemma length_getFaceVertices: "length (getFaceVertices t f) = 3"
  by (simp add: getFaceVertices_def split: option.splits)

lemma faceOutOfRange_reads:
  assumes "indices t = Some ix" "faceOutOfRange t f"
  shows "getFaceVertices t f = [Undefined, Undefined, Undefined]"
proof -
  from assms have "of_nat (length ix) / 3 \<le> (of_nat f :: rat)"
    by (simp add: faceOutOfRange_def getFaceCount_def)
  then have "(of_nat (length ix) :: rat) \<le> of_nat (3 * f)"
    by simp
  then have "length ix \<le> 3 * f"
    by (simp only: of_nat_le_iff)
  then show ?thesis
    using assms(1) by (simp add: getFaceVertices_def typed_get_def)
qed

text \<open>
  On an indexed mesh whose index values are all below the vertex count, a vertex index that
  is out of range occurs in no face.
\<close>

lemma unused_vertex_out_of_range:
  assumes "indices t = Some ix" "\<forall>x \<in> set ix. of_nat x < getVertexCount t"
    "vertexOutOfRange t v"
  shows "v \<notin> meshVertices t"
proof
  assume "v \<in> meshVertices t"
  then obtain k where "v = typed_get ix k"
    using assms(1) by (auto simp: meshVertices_def getFaceVertices_def)
  moreover from assms(3) obtain n where n: "v = Num n" "getVertexCount t \<le> of_nat n"
    by (auto simp: vertexOutOfRange_def split: jsval.splits)
  ultimately have "n \<in> set ix"
    by (auto simp: typed_get_def split: if_splits)
  with assms(2) n show False by auto
qed

text \<open>
  C1, as amended. The queries that do not consult the adjacency table check no index and
  return a value where the index is out of range: \<^verbatim>\<open>getFaceEdges(f)\<close> is
  \<open>[(f,0), (f,1), (f,2)]\<close> for every \<open>f\<close>; \<^verbatim>\<open>getFaceVertices(f)\<close> is \<open>(3f, 3f+1, 3f+2)\<close> on
  a non-indexed mesh, for every \<open>f\<close> with \<open>3f + 2\<close> below \<open>2^53\<close> (where the arithmetic of
  the source is exact), and three times \<^verbatim>\<open>undefined\<close> for a face index out of range on an
  indexed mesh; \<^verbatim>\<open>getEdgeVertices(f, e)\<close> with an edge slot \<open>e \<ge> 3\<close> has \<^verbatim>\<open>undefined\<close> as
  its first component; and for a vertex that occurs in no face the incident faces, the
  neighbours and the incident edges are empty and the valence is 0.
\<close>

theorem out_of_range_queries_return:
  "call t (GetFaceEdges f) = Inr (EdgeList [(f, 0), (f, 1), (f, 2)])
   \<and> (indices t = None \<and> 3 * f + 2 < 2 ^ 53 \<longrightarrow>
        call t (GetFaceVertices f)
          = Inr (VertexTriple [Num (3 * f), Num (3 * f + 1), Num (3 * f + 2)]))
   \<and> (indices t \<noteq> None \<and> faceOutOfRange t f \<longrightarrow>
        call t (GetFaceVertices f) = Inr (VertexTriple [Undefined, Undefined, Undefined]))
   \<and> (3 \<le> e \<longrightarrow> (\<exists>b. call t (GetEdgeVertices f e) = Inr (VertexPair (Undefined, b))))
   \<and> (v \<notin> meshVertices t \<longrightarrow>
        call t (GetVertexIncidentFaces v) = Inr (FaceIndices [])
        \<and> call t (GetVertexNeighbors v) = Inr (VertexList [])
        \<and> call t (GetVertexIncidentEdges v) = Inr (IncidentEdges [])
        \<and> call t (GetVertexValence v) = Inr (Count 0))"
proof (intro conjI impI)
  show "call t (GetFaceEdges f) = Inr (EdgeList [(f, 0), (f, 1), (f, 2)])"
    by (simp add: getFaceEdges_def)
  show "call t (GetFaceVertices f)
      = Inr (VertexTriple [Num (3 * f), Num (3 * f + 1), Num (3 * f + 2)])"
    if "indices t = None \<and> 3 * f + 2 < 2 ^ 53"
    using that by (simp add: getFaceVertices_def mult.commute)
  show "call t (GetFaceVertices f) = Inr (VertexTriple [Undefined, Undefined, Undefined])"
    if "indices t \<noteq> None \<and> faceOutOfRange t f"
    using that faceOutOfRange_reads [of t _ f] by auto
  show "\<exists>b. call t (GetEdgeVertices f e) = Inr (VertexPair (Undefined, b))"
    if "3 \<le> e"
    using that by (simp add: getEdgeVertices_def array_get_def Let_def length_getFaceVertices)
next
  assume v: "v \<notin> meshVertices t"
  show "call t (GetVertexIncidentFaces v) = Inr (FaceIndices [])"
    using v by (simp add: incident_empty)
  show "call t (GetVertexNeighbors v) = Inr (VertexList [])"
    using v by (simp add: neighbors_empty)
  show "call t (GetVertexIncidentEdges v) = Inr (IncidentEdges [])"
    using v by (simp add: getVertexIncidentEdges_def incident_empty)
  show "call t (GetVertexValence v) = Inr (Count 0)"
    using v by (simp add: getVertexValence_def neighbors_empty)
qed

text \<open>
  C1, as stated, fails: on a single triangle (face count 1) the call
  \<^verbatim>\<open>getFaceEdges(5)\<close> is out of range and returns \<open>[(5,0), (5,1), (5,2)]\<close> instead of
  failing with \<open>IndexOutOfRange\<close>.
\<close>

theorem out_of_range_counterexample:
  "outOfRange (createHalfEdgeTopology triangle) (GetFaceEdges 5)
   \<and> getFaceCount (createHalfEdgeTopology triangle) = 1
   \<and> call (createHalfEdgeTopology triangle) (GetFaceEdges 5) \<noteq> Inl IndexOutOfRange
   \<and> call (createHalfEdgeTopology triangle) (GetFaceEdges 5)
       = Inr (EdgeList [(5, 0), (5, 1), (5, 2)])"
  by (simp add: faceOutOfRange_def getFaceCount_def createHalfEdgeTopology_def triangle_def
      getFaceEdges_def)

theorem out_of_range_queries_return_witness:
  "indices (createHalfEdgeTopology quad) \<noteq> None
   \<and> faceOutOfRange (createHalfEdgeTopology quad) 2
   \<and> Num 4 \<notin> meshVertices (createHalfEdgeTopology quad)
   \<and> call (createHalfEdgeTopology quad) (GetFaceEdges 2) = Inr (EdgeList [(2, 0), (2, 1), (2, 2)])
   \<and> call (createHalfEdgeTopology quad) (GetFaceVertices 2)
       = Inr (VertexTriple [Undefined, Undefined, Undefined])
   \<and> (\<exists>b. call (createHalfEdgeTopology quad) (GetEdgeVertices 2 3)
         = Inr (VertexPair (Undefined, b)))
   \<and> call (createHalfEdgeTopology quad) (GetVertexIncidentFaces (Num 4)) = Inr (FaceIndices [])
   \<and> call (createHalfEdgeTopology quad) (GetVertexNeighbors (Num 4)) = Inr (VertexList [])
   \<and> call (createHalfEdgeTopology quad) (GetVertexIncidentEdges (Num 4)) = Inr (IncidentEdges [])
   \<and> call (createHalfEdgeTopology quad) (GetVertexValence (Num 4)) = Inr (Count 0)
   \<and> indices (createHalfEdgeTopology triangle) = None
   \<and> faceOutOfRange (createHalfEdgeTopology triangle) 5
   \<and> call (createHalfEdgeTopology triangle) (GetFaceVertices 5)
       = Inr (VertexTriple [Num 15, Num 16, Num 17])"
proof -
  let ?t = "createHalfEdgeTopology quad"
  let ?s = "createHalfEdgeTopology triangle"
  have ix: "indices ?t = Some [0, 1, 2, 0, 2, 3]"
    by (simp add: createHalfEdgeTopology_def quad_def)
  have a: "indices ?t \<noteq> None" using ix by simp
  have b: "faceOutOfRange ?t 2"
    by (simp add: faceOutOfRange_def getFaceCount_def ix)
  have c: "(3::nat) \<le> 3" by simp
  have "vertexOutOfRange ?t (Num 4)"
    by (simp add: vertexOutOfRange_def getVertexCount_def createHalfEdgeTopology_def quad_def)
  moreover have "\<forall>x \<in> set [0, 1, 2, 0, 2, 3::nat]. of_nat x < getVertexCount ?t"
    by (simp add: getVertexCount_def createHalfEdgeTopology_def quad_def)
  ultimately have d: "Num 4 \<notin> meshVertices ?t"
    using unused_vertex_out_of_range [OF ix] by blast
  have n: "indices ?s = None"
    by (simp add: createHalfEdgeTopology_def triangle_def)
  have o: "faceOutOfRange ?s 5"
    by (simp add: faceOutOfRange_def getFaceCount_def createHalfEdgeTopology_def triangle_def)
  have p: "3 * (5::nat) + 2 < 2 ^ 53" by simp
  from out_of_range_queries_return [of ?t 2 3 "Num 4"] a b c d
  have q: "call ?t (GetFaceEdges 2) = Inr (EdgeList [(2, 0), (2, 1), (2, 2)])
    \<and> call ?t (GetFaceVertices 2) = Inr (VertexTriple [Undefined, Undefined, Undefined])
    \<and> (\<exists>b. call ?t (GetEdgeVertices 2 3) = Inr (VertexPair (Undefined, b)))
    \<and> call ?t (GetVertexIncidentFaces (Num 4)) = Inr (FaceIndices [])
    \<and> call ?t (GetVertexNeighbors (Num 4)) = Inr (VertexList [])
    \<and> call ?t (GetVertexIncidentEdges (Num 4)) = Inr (IncidentEdges [])
    \<and> call ?t (GetVertexValence (Num 4)) = Inr (Count 0)"
    by blast
  from out_of_range_queries_return [of ?s 5 0 Undefined] n p
  have r: "call ?s (GetFaceVertices 5) = Inr (VertexTriple [Num 15, Num 16, Num 17])"
    by simp
  from a b d q n o r show ?thesis by blast
qed

subsection \<open>The walk around a vertex\<close>

lemma indexOf_lower: "- 1 \<le> indexOf xs x"
  by (induction xs) (auto simp: Let_def)

lemma indexOf_absent: "(indexOf xs x = - 1) = (x \<notin> set xs)"
proof (induction xs)
  case Nil
  then show ?case by simp
next
  case (Cons y ys)
  have "- 1 \<le> indexOf ys x" by (rule indexOf_lower)
  with Cons show ?case by (auto simp: Let_def)
qed

lemma walk_loop_chain:
  assumes "fs = getVertexIncidentFaces t v" "cur \<notin> visited"
  shows "\<exists>rest. walk_loop t v fs visited ord cur = ord @ cur # rest
           \<and> walk_chain t v visited (cur # rest) \<and> set rest \<subseteq> set fs"
  using assms
proof (induction t v fs visited ord cur rule: walk_loop.induct)
  case (1 t v fs visited ord cur)
  let ?pos = "indexOf (getFaceVertices t cur) v"
  let ?next = "getSiblingTriangleIndex (halfEdgeMap t) cur (nat ((?pos + 2) mod 3))"
  let ?go = "?next \<noteq> - 1 \<and> array_includes (map int fs) ?next
             \<and> ?next \<notin> int ` insert cur visited"
  have nx: "nextFaceAround t v cur = (if ?pos \<noteq> - 1 then ?next else - 1)"
    by (simp add: nextFaceAround_def Let_def)
  show ?case
  proof (cases "?pos \<noteq> - 1 \<and> ?go")
    case True
    then have pos: "?pos \<noteq> - 1" and go: ?go
      by blast+
    from go have nv: "nat ?next \<notin> insert cur visited" and nf: "nat ?next \<in> set fs"
      and nn: "int (nat ?next) = ?next"
      by (auto simp: array_includes_def)
    have step: "walk_loop t v fs visited ord cur
        = walk_loop t v fs (insert cur visited) (ord @ [cur]) (nat ?next)"
      using True "1.prems"(2)
      by (subst walk_loop.simps) (simp add: Let_def)
    have "\<exists>rest. walk_loop t v fs (insert cur visited) (ord @ [cur]) (nat ?next)
                 = (ord @ [cur]) @ nat ?next # rest
             \<and> walk_chain t v (insert cur visited) (nat ?next # rest) \<and> set rest \<subseteq> set fs"
      by (rule "1.IH" [OF "1.prems"(2) refl refl refl refl pos refl refl go "1.prems"(1) nv])
    then obtain rest where rest:
      "walk_loop t v fs (insert cur visited) (ord @ [cur]) (nat ?next)
         = (ord @ [cur]) @ nat ?next # rest"
      "walk_chain t v (insert cur visited) (nat ?next # rest)" "set rest \<subseteq> set fs"
      by blast
    have "\<not> stopsAt t v (insert cur visited) cur"
      using go pos "1.prems"(1) by (auto simp: stopsAt_def Let_def array_includes_def nx)
    moreover have "v \<in> set (getFaceVertices t cur)"
      using pos by (simp add: indexOf_absent)
    ultimately have "walk_chain t v visited (cur # nat ?next # rest)"
      using rest(2) nn pos "1.prems"(2) by (simp add: nx)
    with step rest nf show ?thesis by auto
  next
    case False
    then have stop: "walk_loop t v fs visited ord cur = ord @ [cur]"
      using "1.prems"(2)
      by (subst walk_loop.simps) (auto simp: Let_def)
    from False have "stopsAt t v (insert cur visited) cur"
      using "1.prems"(1) by (auto simp: stopsAt_def Let_def array_includes_def nx)
    with stop "1.prems"(2) show ?thesis by simp
  qed
qed

lemma walk_chain_last:
  assumes "walk_chain t v vis r" "r \<noteq> []"
  shows "stopsAt t v (vis \<union> set r) (last r)"
  using assms
proof (induction t v vis r rule: walk_chain.induct)
  case (1 t v vis)
  then show ?case by simp
next
  case (2 t v vis f)
  then show ?case by simp
next
  case (3 t v vis f f' fs)
  then have "stopsAt t v (insert f vis \<union> set (f' # fs)) (last (f' # fs))"
    by simp
  moreover have "insert f vis \<union> set (f' # fs) = vis \<union> set (f # f' # fs)"
    by auto
  ultimately show ?case by simp
qed

text \<open>
  C5. \<^verbatim>\<open>walkAroundVertex\<close> returns for every vertex and every choice of start face, and
  its result is a walk around the vertex: each step moves from the current face, which
  contains the vertex, to the sibling face across the edge slot
  \<open>(vertexPosition + 2) mod 3\<close>, a step is taken only when none of the stop conditions
  holds, and the walk stops at its last face because the next face is a boundary (none),
  not incident to the vertex, or already visited. The result is empty exactly when the
  vertex has no incident face; otherwise it begins with the start face (the first incident
  face when none is given) and continues through incident faces only.
\<close>

theorem walkAroundVertex_chain:
  "walk_chain t v {} (walkAroundVertex t v s)
   \<and> (walkAroundVertex t v s \<noteq> [] \<longrightarrow>
        stopsAt t v (set (walkAroundVertex t v s)) (last (walkAroundVertex t v s)))
   \<and> ((walkAroundVertex t v s = []) = (getVertexIncidentFaces t v = []))
   \<and> (getVertexIncidentFaces t v \<noteq> [] \<longrightarrow>
        (\<exists>rest. walkAroundVertex t v s
                   = (case s of Some f \<Rightarrow> f | None \<Rightarrow> getVertexIncidentFaces t v ! 0) # rest
               \<and> set rest \<subseteq> set (getVertexIncidentFaces t v)))"
proof (cases "getVertexIncidentFaces t v = []")
  case True
  then have "walkAroundVertex t v s = []"
    by (simp add: walkAroundVertex_def)
  with True show ?thesis by simp
next
  case ne: False
  let ?fs = "getVertexIncidentFaces t v"
  let ?start = "case s of Some f \<Rightarrow> f | None \<Rightarrow> ?fs ! 0"
  from ne have w: "walkAroundVertex t v s = walk_loop t v ?fs {} [] ?start"
    by (simp add: walkAroundVertex_def Let_def)
  from walk_loop_chain [OF refl, of ?start "{}" t v "[]"]
  obtain rest where rest: "walk_loop t v ?fs {} [] ?start = ?start # rest"
    "walk_chain t v {} (?start # rest)" "set rest \<subseteq> set ?fs"
    by auto
  from rest w have r: "walkAroundVertex t v s = ?start # rest"
    by simp
  from rest r have chain: "walk_chain t v {} (walkAroundVertex t v s)"
    by simp
  have nonempty: "walkAroundVertex t v s \<noteq> []"
    using r by simp
  have "stopsAt t v (set (walkAroundVertex t v s)) (last (walkAroundVertex t v s))"
    using walk_chain_last [OF chain nonempty] by simp
  moreover have "\<exists>rest. walkAroundVertex t v s = ?start # rest \<and> set rest \<subseteq> set ?fs"
    using r rest(3) by blast
  ultimately show ?thesis
    using chain nonempty ne by simp
qed

theorem walkAroundVertex_chain_witness:
  "getVertexIncidentFaces (createHalfEdgeTopology quad) (Num 0) = [0, 1]
   \<and> walkAroundVertex (createHalfEdgeTopology quad) (Num 0) None = [0, 1]
   \<and> walk_chain (createHalfEdgeTopology quad) (Num 0) {} [0, 1]
   \<and> stopsAt (createHalfEdgeTopology quad) (Num 0) {0, 1} 1
   \<and> getVertexIncidentFaces (createHalfEdgeTopology flap) (Num 1) = [0]
   \<and> walkAroundVertex (createHalfEdgeTopology flap) (Num 1) (Some 1) = [1]
   \<and> stopsAt (createHalfEdgeTopology flap) (Num 1) {1} 1
   \<and> getVertexIncidentFaces (createHalfEdgeTopology quad) (Num 7) = []
   \<and> walkAroundVertex (createHalfEdgeTopology quad) (Num 7) (Some 0) = []"
proof -
  let ?t = "createHalfEdgeTopology quad"
  let ?u = "createHalfEdgeTopology flap"
  have a: "getVertexIncidentFaces ?t (Num 0) = [0, 1]" by code_simp
  have b: "walkAroundVertex ?t (Num 0) None = [0, 1]" by code_simp
  have c: "getVertexIncidentFaces ?t (Num 7) = []" by code_simp
  have d: "getVertexIncidentFaces ?u (Num 1) = [0]" by code_simp
  have e: "walkAroundVertex ?u (Num 1) (Some 1) = [1]" by code_simp
  from walkAroundVertex_chain [of ?t "Num 0" None] walkAroundVertex_chain [of ?t "Num 7" "Some 0"]
    walkAroundVertex_chain [of ?u "Num 1" "Some 1"] a b c d e
  show ?thesis by simp
qed

subsection \<open>The shortest path\<close>

lemma adjacent_steps_snoc:
  "adjacent_steps t (p @ [n])
     = (adjacent_steps t p \<and> (p = [] \<or> n \<in> set (getVertexNeighbors t (last p))))"
  by (induction t p rule: adjacent_steps.induct) auto

lemma isPath_single: "isPath t a a [a]"
  by (simp add: isPath_def)

lemma isPath_snoc:
  "isPath t a u p \<Longrightarrow> n \<in> set (getVertexNeighbors t u) \<Longrightarrow> isPath t a n (p @ [n])"
  by (auto simp: isPath_def adjacent_steps_snoc)

lemma isPath_snocE:
  assumes "isPath t a b (q @ [x])"
  shows "x = b \<and> (q = [] \<and> a = b
            \<or> q \<noteq> [] \<and> isPath t a (last q) q \<and> b \<in> set (getVertexNeighbors t (last q)))"
  using assms by (auto simp: isPath_def adjacent_steps_snoc hd_append split: if_splits)

text \<open>
  Under the invariant, a path to a vertex that is not yet visited is at least as long as
  the path of some queue entry.
\<close>

lemma frontier:
  assumes "bfs_inv t s e visited queue" "isPath t s w q" "w \<notin> visited"
  shows "\<exists>x \<in> set queue. length (snd x) \<le> length q"
  using assms(2,3)
proof (induction q arbitrary: w rule: rev_induct)
  case Nil
  then show ?case by (simp add: isPath_def)
next
  case (snoc x q)
  from isPath_snocE [OF snoc.prems(1)]
  consider "q = []" "s = w"
    | "q \<noteq> []" "isPath t s (last q) q" "w \<in> set (getVertexNeighbors t (last q))"
    by blast
  then show ?case
  proof cases
    case 1
    with snoc.prems(2) assms(1) have "(s, [s]) \<in> set queue"
      by (simp add: bfs_inv_def)
    with 1 show ?thesis by force
  next
    case 2
    show ?thesis
    proof (cases "last q \<in> visited")
      case True
      with assms(1) 2(3) snoc.prems(2)
      obtain y where "y \<in> set queue"
        "\<forall>q'. isPath t s (last q) q' \<longrightarrow> length (snd y) \<le> length q' + 1"
        unfolding bfs_inv_def by blast
      with 2(2) show ?thesis by force
    next
      case False
      from snoc.IH [OF 2(2) False] show ?thesis by force
    qed
  qed
qed

lemma head_minimal:
  assumes inv: "bfs_inv t s e visited (x # queue)" and nv: "fst x \<notin> visited"
    and q: "isPath t s (fst x) q"
  shows "length (snd x) \<le> length q"
proof -
  from frontier [OF inv q nv] obtain y where
    y: "y \<in> set (x # queue)" "length (snd y) \<le> length q"
    by blast
  from inv have "sorted (map (\<lambda>x. length (snd x)) (x # queue))"
    by (simp add: bfs_inv_def)
  with y(1) have "length (snd x) \<le> length (snd y)"
    by auto
  with y(2) show ?thesis by simp
qed

lemma bfs_inv_skip:
  assumes inv: "bfs_inv t s e visited (x # queue)" and v: "fst x \<in> visited"
  shows "bfs_inv t s e visited queue"
  unfolding bfs_inv_def
proof (intro conjI)
  show "\<forall>x \<in> set queue. isPath t s (fst x) (snd x)"
    using inv by (simp add: bfs_inv_def)
  show "sorted (map (\<lambda>x. length (snd x)) queue)"
    using inv by (simp add: bfs_inv_def)
  show "\<forall>x \<in> set queue. \<forall>y \<in> set queue. length (snd y) \<le> length (snd x) + 1"
    using inv by (simp add: bfs_inv_def)
  show "\<forall>u \<in> visited. \<forall>y \<in> set (getVertexNeighbors t u).
      y \<in> visited
      \<or> (\<exists>x \<in> set queue. fst x = y \<and> (\<forall>q. isPath t s u q \<longrightarrow> length (snd x) \<le> length q + 1))"
  proof (intro ballI)
    fix u y
    assume u: "u \<in> visited" and y: "y \<in> set (getVertexNeighbors t u)"
    from inv u y have "y \<in> visited
      \<or> (\<exists>z \<in> set (x # queue). fst z = y
               \<and> (\<forall>q. isPath t s u q \<longrightarrow> length (snd z) \<le> length q + 1))"
      unfolding bfs_inv_def by blast
    with v show "y \<in> visited
      \<or> (\<exists>x \<in> set queue. fst x = y \<and> (\<forall>q. isPath t s u q \<longrightarrow> length (snd x) \<le> length q + 1))"
      by auto
  qed
  show "e \<notin> visited"
    using inv by (simp add: bfs_inv_def)
  show "s \<in> visited \<or> (s, [s]) \<in> set queue"
    using inv v by (auto simp: bfs_inv_def)
qed


lemma sorted_map_const: "sorted (map (\<lambda>x. (c::nat)) xs)"
  by (induction xs) simp_all

lemma bfs_inv_expand:
  assumes inv: "bfs_inv t s e visited ((v, p) # queue)" and nv: "v \<notin> visited"
    and ne: "v \<noteq> e"
  shows "bfs_inv t s e (insert v visited)
           (queue @ map (\<lambda>neighbor. (neighbor, p @ [neighbor]))
                      (filter (\<lambda>neighbor. neighbor \<notin> insert v visited)
                         (getVertexNeighbors t v)))"
    (is "bfs_inv t s e ?vis (queue @ ?new)")
proof -
  have path: "isPath t s v p"
    using inv by (simp add: bfs_inv_def)
  have minimal: "length p \<le> length q" if "isPath t s v q" for q
    using head_minimal [OF inv] nv that by simp
  have lower: "length p \<le> length (snd x)" if "x \<in> set queue" for x
    using inv that by (auto simp: bfs_inv_def)
  have upper: "length (snd x) \<le> length p + 1" if "x \<in> set queue" for x
    using inv that by (auto simp: bfs_inv_def)
  have new: "fst x \<in> set (getVertexNeighbors t v) \<and> snd x = p @ [fst x]"
    if "x \<in> set ?new" for x
    using that by auto
  have split: "x \<in> set queue \<or> x \<in> set ?new" if "x \<in> set (queue @ ?new)" for x
    using that by (simp only: set_append Un_iff)
  have lower': "length p \<le> length (snd x)" if "x \<in> set (queue @ ?new)" for x
    using split [OF that]
  proof
    assume "x \<in> set queue"
    then show ?thesis by (rule lower)
  next
    assume "x \<in> set ?new"
    from new [OF this] show ?thesis by simp
  qed
  have upper': "length (snd x) \<le> length p + 1" if "x \<in> set (queue @ ?new)" for x
    using split [OF that]
  proof
    assume "x \<in> set queue"
    then show ?thesis by (rule upper)
  next
    assume "x \<in> set ?new"
    from new [OF this] show ?thesis by simp
  qed
  show ?thesis
    unfolding bfs_inv_def
  proof (intro conjI)
    show "\<forall>x \<in> set (queue @ ?new). isPath t s (fst x) (snd x)"
    proof
      fix x assume "x \<in> set (queue @ ?new)"
      then consider "x \<in> set queue" | "x \<in> set ?new" by auto
      then show "isPath t s (fst x) (snd x)"
      proof cases
        case 1
        with inv show ?thesis by (simp add: bfs_inv_def)
      next
        case 2
        from new [OF 2] isPath_snoc [OF path] show ?thesis by simp
      qed
    qed
    have sq: "sorted (map (\<lambda>x. length (snd x)) queue)"
      using inv by (simp add: bfs_inv_def)
    show "sorted (map (\<lambda>x. length (snd x)) (queue @ ?new))"
      using sq upper by (auto simp: sorted_append comp_def sorted_map_const)
    show "\<forall>x \<in> set (queue @ ?new). \<forall>y \<in> set (queue @ ?new).
        length (snd y) \<le> length (snd x) + 1"
      using lower' upper' by (meson le_trans add_le_mono1)
    show "\<forall>u \<in> ?vis. \<forall>y \<in> set (getVertexNeighbors t u).
        y \<in> ?vis
        \<or> (\<exists>x \<in> set (queue @ ?new). fst x = y
              \<and> (\<forall>q. isPath t s u q \<longrightarrow> length (snd x) \<le> length q + 1))"
    proof (intro ballI)
      fix u y assume u: "u \<in> ?vis" and y: "y \<in> set (getVertexNeighbors t u)"
      show "y \<in> ?vis
        \<or> (\<exists>x \<in> set (queue @ ?new). fst x = y
              \<and> (\<forall>q. isPath t s u q \<longrightarrow> length (snd x) \<le> length q + 1))"
      proof (cases "u = v")
        case True
        show ?thesis
        proof (cases "y \<in> ?vis")
          case False
          with y True have "(y, p @ [y]) \<in> set ?new"
            by simp
          then have "(y, p @ [y]) \<in> set (queue @ ?new)"
            by (simp only: set_append Un_iff simp_thms)
          moreover have "fst (y, p @ [y]) = y" by simp
          moreover have "\<forall>q. isPath t s u q \<longrightarrow> length (snd (y, p @ [y])) \<le> length q + 1"
            using minimal True by simp
          ultimately show ?thesis by blast
        next
          case True
          then show ?thesis by (rule disjI1)
        qed
      next
        case False
        with u have "u \<in> visited" by simp
        with inv y have "y \<in> visited
          \<or> (\<exists>z \<in> set ((v, p) # queue). fst z = y
                \<and> (\<forall>q. isPath t s u q \<longrightarrow> length (snd z) \<le> length q + 1))"
          unfolding bfs_inv_def by blast
        then consider "y \<in> visited" | "y = v"
          | z where "z \<in> set queue" "fst z = y"
              "\<forall>q. isPath t s u q \<longrightarrow> length (snd z) \<le> length q + 1"
          by auto
        then show ?thesis
        proof cases
          case 1
          then show ?thesis by simp
        next
          case 2
          then show ?thesis by simp
        next
          case 3
          from 3(1) have "z \<in> set (queue @ ?new)"
            by (simp only: set_append Un_iff simp_thms)
          with 3(2,3) show ?thesis by blast
        qed
      qed
    qed
    show "e \<notin> ?vis"
      using inv ne by (simp add: bfs_inv_def)
    from inv have "s \<in> visited \<or> (s, [s]) \<in> set ((v, p) # queue)"
      by (simp add: bfs_inv_def)
    then have "s \<in> visited \<or> s = v \<or> (s, [s]) \<in> set queue"
      by auto
    then show "s \<in> ?vis \<or> (s, [s]) \<in> set (queue @ ?new)"
      by (simp only: set_append Un_iff insert_iff) blast
  qed
qed

lemma bfs_loop_correct:
  assumes "bfs_inv t s e visited queue"
  shows "case bfs_loop t e visited queue of
           None \<Rightarrow> \<forall>q. \<not> isPath t s e q
         | Some p \<Rightarrow> isPath t s e p \<and> (\<forall>q. isPath t s e q \<longrightarrow> length p \<le> length q)"
  using assms
proof (induction t e visited queue rule: bfs_loop.induct)
  case (1 t e visited)
  have "\<not> isPath t s e q" for q
  proof
    assume "isPath t s e q"
    moreover from 1 have "e \<notin> visited" by (simp add: bfs_inv_def)
    ultimately show False
      using frontier [OF 1] by simp
  qed
  then show ?case by (simp add: bfs_loop.simps)
next
  case (2 t e visited v p queue)
  show ?case
  proof (cases "v \<in> visited")
    case True
    from bfs_inv_skip [OF "2.prems"] True have "bfs_inv t s e visited queue" by simp
    from "2.IH"(1) [OF True this] True show ?thesis
      by (simp add: bfs_loop.simps)
  next
    case False
    show ?thesis
    proof (cases "v = e")
      case True
      from "2.prems" have "isPath t s v p" by (simp add: bfs_inv_def)
      moreover have "\<forall>q. isPath t s v q \<longrightarrow> length p \<le> length q"
        using head_minimal [OF "2.prems"] False by simp
      ultimately show ?thesis
        using True False by (simp add: bfs_loop.simps)
    next
      case ne: False
      from bfs_inv_expand [OF "2.prems" False ne]
      show ?thesis
        using "2.IH"(2) [OF False refl ne] False ne
        by (simp add: bfs_loop.simps)
    qed
  qed
qed

lemma bfs_inv_initial: "s \<noteq> e \<Longrightarrow> bfs_inv t s e {} [(s, [s])]"
  by (simp add: bfs_inv_def isPath_single)

lemma isPath_length: "isPath t a b q \<Longrightarrow> 1 \<le> length q"
  by (cases q) (simp_all add: isPath_def)

text \<open>
  C2. \<^verbatim>\<open>findShortestPath(a, b)\<close> returns the single-element path \<open>[a]\<close> when \<open>a = b\<close>. When
  \<open>b\<close> is reachable from \<open>a\<close> in the graph of \<^verbatim>\<open>getVertexNeighbors\<close>, it returns a vertex
  list that starts at \<open>a\<close>, ends at \<open>b\<close>, steps only between adjacent vertices, and is no
  longer than any other such list. When \<open>b\<close> is not reachable from \<open>a\<close>, it returns none.
\<close>

theorem findShortestPath_correct:
  "(a = b \<longrightarrow> findShortestPath t a b = Some [a])
   \<and> ((\<exists>q. isPath t a b q) \<longrightarrow>
        (\<exists>p. findShortestPath t a b = Some p \<and> isPath t a b p
             \<and> (\<forall>q. isPath t a b q \<longrightarrow> length p \<le> length q)))
   \<and> ((\<forall>q. \<not> isPath t a b q) \<longrightarrow> findShortestPath t a b = None)"
proof (cases "a = b")
  case True
  then have "findShortestPath t a b = Some [a]"
    by (simp add: findShortestPath_def)
  moreover have "isPath t a b [a]"
    using True isPath_single by simp
  moreover have "length [a] \<le> length q" if "isPath t a b q" for q
    using isPath_length [OF that] by simp
  ultimately show ?thesis by auto
next
  case False
  then have f: "findShortestPath t a b = bfs_loop t b {} [(a, [a])]"
    by (simp add: findShortestPath_def)
  have c: "case bfs_loop t b {} [(a, [a])] of
             None \<Rightarrow> \<forall>q. \<not> isPath t a b q
           | Some p \<Rightarrow> isPath t a b p \<and> (\<forall>q. isPath t a b q \<longrightarrow> length p \<le> length q)"
    by (rule bfs_loop_correct [OF bfs_inv_initial [OF False]])
  show ?thesis
  proof (cases "bfs_loop t b {} [(a, [a])]")
    case None
    with c have "\<forall>q. \<not> isPath t a b q" by simp
    with None False f show ?thesis by simp
  next
    case (Some p)
    with c have p: "isPath t a b p" "\<forall>q. isPath t a b q \<longrightarrow> length p \<le> length q"
      by simp_all
    from p(1) have "\<not> (\<forall>q. \<not> isPath t a b q)" by blast
    with Some False f p show ?thesis by simp
  qed
qed


theorem findShortestPath_correct_witness:
  "findShortestPath (createHalfEdgeTopology quad) (Num 1) (Num 3) = Some [Num 1, Num 0, Num 3]
   \<and> isPath (createHalfEdgeTopology quad) (Num 1) (Num 3) [Num 1, Num 0, Num 3]
   \<and> \<not> (\<exists>q. isPath (createHalfEdgeTopology quad) (Num 1) (Num 3) q \<and> length q < 3)
   \<and> findShortestPath (createHalfEdgeTopology quad) (Num 2) (Num 2) = Some [Num 2]
   \<and> findShortestPath (createHalfEdgeTopology islands) (Num 0) (Num 3) = None
   \<and> \<not> (\<exists>q. isPath (createHalfEdgeTopology islands) (Num 0) (Num 3) q)"
proof -
  let ?Q = "createHalfEdgeTopology quad"
  let ?I = "createHalfEdgeTopology islands"
  have r: "findShortestPath ?Q (Num 1) (Num 3) = Some [Num 1, Num 0, Num 3]"
    by code_simp
  have h: "isPath ?Q (Num 1) (Num 3) [Num 1, Num 0, Num 3]"
    by code_simp
  have n: "findShortestPath ?I (Num 0) (Num 3) = None"
    by code_simp
  from h have "\<exists>q. isPath ?Q (Num 1) (Num 3) q" by blast
  with findShortestPath_correct [of "Num 1" "Num 3" ?Q] r
  have m: "\<forall>q. isPath ?Q (Num 1) (Num 3) q \<longrightarrow> 3 \<le> length q"
    by auto
  have s: "findShortestPath ?Q (Num 2) (Num 2) = Some [Num 2]"
    using findShortestPath_correct [of "Num 2" "Num 2" ?Q] by simp
  have d: "\<not> (\<exists>q. isPath ?I (Num 0) (Num 3) q)"
    using findShortestPath_correct [of "Num 0" "Num 3" ?I] n by auto
  from r h m s n d show ?thesis
    by (simp add: not_less)
qed

end
